theory Spec2Isabelle
  imports Main "HOL-Library.Sublist"
begin

section \<open>Python string primitives used by the parser\<close>

text \<open>
  A Python \<open>str\<close> is modelled as a \<open>string\<close>; a character stands for one code point
  (the code points below 256). Every separator and pattern the source passes to
  \<open>split\<close> and \<open>replace\<close> is a non-empty literal, so the empty-pattern behaviour of
  Python (a \<open>ValueError\<close> for \<open>split\<close>) never arises; the model returns the text
  unchanged there.
\<close>

datatype error = IndexError

text \<open>\<open>xs[i]\<close> for a non-negative literal index: out of range raises \<open>IndexError\<close>.\<close>

definition index :: "'a list \<Rightarrow> nat \<Rightarrow> error + 'a" where
  "index xs i = (if i < length xs then Inr (xs ! i) else Inl IndexError)"

text \<open>\<open>s.startswith(p)\<close>\<close>

definition str_startswith :: "string \<Rightarrow> string \<Rightarrow> bool" where
  "str_startswith s p = prefix p s"

text \<open>\<open>sub in s\<close>: \<open>sub\<close> occurs in \<open>s\<close> as a contiguous substring.\<close>

fun str_in :: "string \<Rightarrow> string \<Rightarrow> bool" where
  "str_in sub [] = (sub = [])"
| "str_in sub (c # cs) = (prefix sub (c # cs) \<or> str_in sub cs)"

text \<open>
  \<open>s.partition(sep)\<close> without the separator: the text before and after the leftmost
  occurrence of \<open>sep\<close>, if there is one.
\<close>

fun str_partition :: "string \<Rightarrow> string \<Rightarrow> (string \<times> string) option" where
  "str_partition sep [] = (if sep = [] then Some ([], []) else None)"
| "str_partition sep (c # cs) =
     (if prefix sep (c # cs) then Some ([], drop (length sep) (c # cs))
      else map_option (\<lambda>(b, a). (c # b, a)) (str_partition sep cs))"

lemma str_partition_length:
  "str_partition sep s = Some (b, a) \<Longrightarrow> length b + length sep + length a = length s"
proof (induction s arbitrary: b)
  case Nil
  then show ?case by (simp split: if_splits)
next
  case (Cons c cs)
  show ?case
  proof (cases "prefix sep (c # cs)")
    case True
    then have "length sep \<le> length (c # cs)" by (rule prefix_length_le)
    with True Cons.prems show ?thesis by auto
  next
    case False
    with Cons.prems obtain b' where "str_partition sep cs = Some (b', a)" "b = c # b'"
      by auto
    with Cons.IH [of b'] show ?thesis by simp
  qed
qed

text \<open>
  \<open>s.split(sep)\<close>: the pieces between the non-overlapping occurrences of \<open>sep\<close>, found
  from left to right. The result always has at least one element.
\<close>

function str_split :: "string \<Rightarrow> string \<Rightarrow> string list" where
  "str_split sep s =
     (if sep = [] then [s]
      else (case str_partition sep s of
              None \<Rightarrow> [s]
            | Some (b, a) \<Rightarrow> b # str_split sep a))"
  by pat_completeness auto
termination
proof (relation "measure (\<lambda>(sep, s). length s)")
  show "wf (measure (\<lambda>(sep, s). length s))" by simp
next
  fix sep s :: string and x2 b a
  assume "sep \<noteq> []" "str_partition sep s = Some x2" "(b, a) = x2"
  then have "length b + length sep + length a = length s"
    using str_partition_length [of sep s b a] by simp
  with \<open>sep \<noteq> []\<close> show "((sep, a), (sep, s)) \<in> measure (\<lambda>(sep, s). length s)"
    by (cases sep) auto
qed

declare str_split.simps [simp del]

text \<open>
  \<open>s.replace(old, new)\<close>: every non-overlapping occurrence of \<open>old\<close>, found from left
  to right, is replaced by \<open>new\<close>.
\<close>

fun str_replace :: "string \<Rightarrow> string \<Rightarrow> string \<Rightarrow> string" where
  "str_replace old new [] = []"
| "str_replace old new (c # cs) =
     (if old \<noteq> [] \<and> prefix old (c # cs)
      then new @ str_replace old new (drop (length old) (c # cs))
      else c # str_replace old new cs)"

text \<open>
  \<open>c.isspace()\<close> on the code points below 256: tab, line feed, vertical tab, form feed,
  carriage return, the four separators 0x1C to 0x1F, space, NEL and the no-break space.
\<close>

definition is_space :: "char \<Rightarrow> bool" where
  "is_space c = (c \<in> set [CHR 0x09, CHR 0x0A, CHR 0x0B, CHR 0x0C, CHR 0x0D,
                           CHR 0x1C, CHR 0x1D, CHR 0x1E, CHR 0x1F, CHR 0x20,
                           CHR 0x85, CHR 0xA0])"

text \<open>\<open>s.strip()\<close>: whitespace removed from both ends.\<close>

definition str_strip :: "string \<Rightarrow> string" where
  "str_strip s = rev (dropWhile is_space (rev (dropWhile is_space s)))"

section \<open>The normalizer\<close>

text \<open>
  \<open>re.sub('<[^<]+?>', '', text)\<close>. A match starts at a \<open><\<close>, takes at least one
  character other than \<open><\<close> and, the quantifier being lazy, ends at the first \<open>>\<close>
  that follows with no \<open><\<close> in between. \<open>tag_close\<close> looks for that \<open>>\<close> and returns
  the text after it; \<open>tag_match\<close> is the match attempt at the head of the text.
\<close>

fun tag_close :: "string \<Rightarrow> string option" where
  "tag_close [] = None"
| "tag_close (c # cs) =
     (if c = CHR ''>'' then Some cs else if c = CHR ''<'' then None else tag_close cs)"

fun tag_match :: "string \<Rightarrow> string option" where
  "tag_match (a # b # cs) = (if a = CHR ''<'' \<and> b \<noteq> CHR ''<'' then tag_close cs else None)"
| "tag_match _ = None"

lemma tag_close_length: "tag_close s = Some r \<Longrightarrow> length r < length s"
  by (induction s) (auto split: if_splits)

lemma tag_match_length: "tag_match s = Some r \<Longrightarrow> length r < length s"
  by (cases s rule: tag_match.cases) (auto split: if_splits dest: tag_close_length)

function re_sub_tags :: "string \<Rightarrow> string" where
  "re_sub_tags [] = []"
| "re_sub_tags (c # cs) =
     (case tag_match (c # cs) of
        Some r \<Rightarrow> re_sub_tags r
      | None \<Rightarrow> c # re_sub_tags cs)"
  by pat_completeness auto
termination
  by (relation "measure length") (auto dest: tag_match_length)

text \<open>\<open>strip_html\<close>, lines 206 to 209.\<close>

definition strip_html :: "string \<Rightarrow> string" where
  "strip_html text =
     str_strip (str_replace [CHR 0x0D] [] (str_replace [CHR 0x0A] [] (re_sub_tags text)))"

text \<open>The clean-up of the description column, lines 163 and 164.\<close>

definition normalize_description :: "string \<Rightarrow> string" where
  "normalize_description text =
     str_replace '','' [] (str_replace ''(added via synonyms) '' [] (strip_html text))"

section \<open>The description parser\<close>

definition activity_types :: "string list" where
  "activity_types = [''edited questions'', ''updated answers'', ''accepted answers'',
                     ''questions'', ''answers'', ''comments'']"

text \<open>The three fields of the webhook dictionary that come from the description.\<close>

record webhook =
  channel :: string
  tags :: "string list"
  activities :: "string list"

text \<open>
  The loop of lines 184 to 187 over the vocabulary: the state is the list
  \<open>activities\<close> built so far (\<open>acts\<close>) and the working \<open>description\<close> (\<open>descr\<close>).
\<close>

fun scan_activities :: "string list \<Rightarrow> string list \<times> string \<Rightarrow> string list \<times> string" where
  "scan_activities [] (acts, descr) = (acts, descr)"
| "scan_activities (activity_type # rest) (acts, descr) =
     (if str_in activity_type descr
      then scan_activities rest
             (acts @ [activity_type], str_strip (str_replace activity_type [] descr))
      else scan_activities rest (acts, descr))"

text \<open>
  Lines 166 to 191, on the cleaned description. An \<open>IndexError\<close> raised by one of the
  subscripts leaves \<open>process_webhooks\<close> through no handler, so no record is built.
\<close>

definition parse_description :: "string \<Rightarrow> error + webhook" where
  "parse_description description =
     (if str_startswith description ''All post activity to''
      then (case index (str_split ''All post activity to '' description) 1 of
              Inl e \<Rightarrow> Inl e
            | Inr ch \<Rightarrow> Inr \<lparr>channel = ch, tags = [''all''], activities = activity_types\<rparr>)
      else (case index (str_split ''Any '' description) 1 of
              Inl e \<Rightarrow> Inl e
            | Inr description1 \<Rightarrow>
               (case index (str_split '' to '' description1) 1 of
                  Inl e \<Rightarrow> Inl e
                | Inr ch \<Rightarrow>
                   (if str_in ''posts to'' description1
                    then (case index (str_split '' posts to '' description1) 0 of
                            Inl e \<Rightarrow> Inl e
                          | Inr t \<Rightarrow> Inr \<lparr>channel = ch, tags = str_split '' '' t,
                                          activities = activity_types\<rparr>)
                    else (case index (str_split '' to '' description1) 0 of
                            Inl e \<Rightarrow> Inl e
                          | Inr description2 \<Rightarrow>
                             (case scan_activities activity_types ([], description2) of
                                (acts, description3) \<Rightarrow>
                                  Inr \<lparr>channel = ch,
                                       tags = (if description3 \<noteq> [] then str_split '' '' description3
                                               else [''all'']),
                                       activities = acts\<rparr>))))))"

section \<open>Notions used to state and prove the claims\<close>

text \<open>\<open>sep.join(xs)\<close>, used to write down the phrase list of a description.\<close>

fun str_join :: "string \<Rightarrow> string list \<Rightarrow> string" where
  "str_join sep [] = []"
| "str_join sep [x] = x"
| "str_join sep (x # y # ys) = x @ sep @ str_join sep (y # ys)"

text \<open>
  \<open>clear_of v w\<close>: no occurrence of \<open>v\<close> can begin inside \<open>w\<close>, whatever text comes
  after \<open>w\<close>. Each non-empty suffix of \<open>w\<close> neither starts with \<open>v\<close> nor is the start
  of \<open>v\<close>.
\<close>

fun clear_of :: "string \<Rightarrow> string \<Rightarrow> bool" where
  "clear_of v [] = True"
| "clear_of v (c # cs) = (\<not> prefix v (c # cs) \<and> \<not> prefix (c # cs) v \<and> clear_of v cs)"

text \<open>In the table, no phrase can begin inside a phrase that comes later.\<close>

fun later_clear :: "string list \<Rightarrow> bool" where
  "later_clear [] = True"
| "later_clear (v # ws) = ((\<forall>w\<in>set ws. clear_of v w) \<and> later_clear ws)"

text \<open>A text is solid when it is not empty and has no whitespace at either end.\<close>

definition solid :: "string \<Rightarrow> bool" where
  "solid s = (s \<noteq> [] \<and> \<not> is_space (hd s) \<and> \<not> is_space (last s))"

text \<open>
  During the scan the working text is the tag text \<open>T\<close> followed by a list of items,
  each a single space or a phrase. \<open>spaced\<close> is the item list of a phrase list,
  \<open>trim_items\<close> is what \<open>strip\<close> does to the items, \<open>trimmed\<close> holds of its results.
\<close>

fun spaced :: "string list \<Rightarrow> string list" where
  "spaced [] = []"
| "spaced (w # ws) = '' '' # w # spaced ws"

definition rtrim :: "string list \<Rightarrow> string list" where
  "rtrim items = rev (dropWhile (\<lambda>w. w = '' '') (rev items))"

definition trim_items :: "string \<Rightarrow> string list \<Rightarrow> string list" where
  "trim_items T items = (if T = [] then dropWhile (\<lambda>w. w = '' '') (rtrim items) else rtrim items)"

definition trimmed :: "string \<Rightarrow> string list \<Rightarrow> bool" where
  "trimmed T items =
     ((items = [] \<or> last items \<noteq> '' '') \<and> (T = [] \<longrightarrow> items = [] \<or> hd items \<noteq> '' ''))"

section \<open>Facts about the string primitives\<close>

lemma str_in_sublist: "str_in sub s \<longleftrightarrow> sublist sub s"
  by (induction s) (auto simp: sublist_Cons_right)


lemma str_partition_None: "str_partition sep s = None \<longleftrightarrow> \<not> str_in sep s"
  by (induction s) auto

lemma str_split_notin: "\<not> str_in sep s \<Longrightarrow> str_split sep s = [s]"
  by (subst str_split.simps) (simp add: str_partition_None [symmetric])

lemma str_split_found:
  "sep \<noteq> [] \<Longrightarrow> str_partition sep s = Some (b, a) \<Longrightarrow> str_split sep s = b # str_split sep a"
  by (subst str_split.simps) simp

lemma str_split_nonempty: "str_split sep s \<noteq> []"
  by (subst str_split.simps) (simp split: option.splits)

lemma index_0_split: "index (str_split sep s) 0 = Inr (hd (str_split sep s))"
  using str_split_nonempty [of sep s] by (cases "str_split sep s") (simp_all add: index_def)

lemma str_replace_notin: "\<not> str_in old s \<Longrightarrow> str_replace old new s = s"
  by (induction s) auto




lemma str_in_rev: "str_in sub s \<longleftrightarrow> str_in (rev sub) (rev s)"
  by (simp add: str_in_sublist)

lemma str_in_mid: "str_in sub (a @ sub @ b)"
  by (simp add: str_in_sublist)

lemma str_in_self: "str_in v (v @ R)"
  by (simp add: str_in_sublist)

lemma str_partition_self: "sep \<noteq> [] \<Longrightarrow> str_partition sep (sep @ a) = Some ([], a)"
  by (cases sep) simp_all

lemma str_replace_self: "v \<noteq> [] \<Longrightarrow> str_replace v new (v @ R) = new @ str_replace v new R"
  by (cases v) simp_all

text \<open>
  An occurrence of \<open>sep\<close> that begins inside \<open>A\<close> reaches at most \<open>length sep - 1\<close>
  characters into the text that follows \<open>A\<close>.
\<close>

lemma prefix_into_take:
  assumes "prefix sep (A @ V)" and "A \<noteq> []"
  shows "prefix sep (A @ take (length sep - 1) V)"
proof -
  from assms(1) consider "prefix sep A" | us where "sep = A @ us" "prefix us V"
    by (auto simp: prefix_append)
  then show ?thesis
  proof cases
    case 1
    then show ?thesis by (simp add: prefix_append)
  next
    case 2
    from \<open>A \<noteq> []\<close> 2(1) have "length us \<le> length sep - 1" by (cases A) auto
    moreover from 2(2) have "us = take (length us) V" by (auto simp: prefix_def)
    ultimately have "us = take (length us) (take (length sep - 1) V)" by (simp add: min_def)
    then have "prefix us (take (length sep - 1) V)" by (metis take_is_prefix)
    with 2(1) show ?thesis by simp
  qed
qed

lemma str_partition_append:
  assumes "\<not> str_in sep (U @ take (length sep - 1) V)"
  shows "str_partition sep (U @ V) = map_option (\<lambda>(b, a). (U @ b, a)) (str_partition sep V)"
  using assms
proof (induction U)
  case Nil
  show ?case by (simp add: option.map_ident)
next
  case (Cons x U)
  have np: "\<not> prefix sep (x # U @ V)"
  proof
    assume "prefix sep (x # U @ V)"
    then have "prefix sep ((x # U) @ take (length sep - 1) V)"
      using prefix_into_take [of sep "x # U" V] by simp
    with Cons.prems show False by simp
  qed
  from Cons.prems have "\<not> str_in sep (U @ take (length sep - 1) V)" by simp
  from Cons.IH [OF this] np show ?case
    by (simp add: option.map_comp comp_def case_prod_unfold)
qed

lemma str_partition_first:
  assumes "sep \<noteq> []" and "\<not> str_in sep (b @ butlast sep)"
  shows "str_partition sep (b @ sep @ a) = Some (b, a)"
proof -
  have "take (length sep - 1) (sep @ a) = butlast sep" by (simp add: butlast_conv_take)
  with assms(2) have "\<not> str_in sep (b @ take (length sep - 1) (sep @ a))" by simp
  from str_partition_append [OF this] assms(1) show ?thesis
    by (simp add: str_partition_self)
qed

lemma hd_str_split_append:
  assumes "sep \<noteq> []" and "\<not> str_in sep (U @ take (length sep - 1) V)"
  shows "hd (str_split sep (U @ V)) = U @ hd (str_split sep V)"
proof (cases "str_partition sep V")
  case None
  with str_partition_append [OF assms(2)] have "str_partition sep (U @ V) = None" by simp
  with None show ?thesis by (simp add: str_split.simps [of sep])
next
  case (Some p)
  obtain b a where p: "p = (b, a)" by (cases p)
  with Some str_partition_append [OF assms(2)] have "str_partition sep (U @ V) = Some (U @ b, a)"
    by simp
  with Some p assms(1) show ?thesis by (simp add: str_split_found)
qed

lemma index_1_str_split:
  assumes "sep \<noteq> []" and "str_in sep s"
  shows "\<exists>c. index (str_split sep s) 1 = Inr c"
proof -
  from assms(2) obtain b a where p: "str_partition sep s = Some (b, a)"
    using str_partition_None [of sep s] by (cases "str_partition sep s") auto
  obtain c cs where "str_split sep a = c # cs"
    using str_split_nonempty [of sep a] by (cases "str_split sep a") auto
  with p assms(1) have "str_split sep s = b # c # cs" by (simp add: str_split_found)
  then show ?thesis by (simp add: index_def)
qed

section \<open>Occurrences that cannot begin inside a text\<close>

lemma str_in_append_left: "str_in v a \<Longrightarrow> str_in v (a @ b)"
proof -
  assume "str_in v a"
  then obtain ps ss where "a = ps @ v @ ss" by (auto simp: str_in_sublist sublist_def)
  then have "a @ b = ps @ v @ (ss @ b)" by simp
  then show ?thesis unfolding str_in_sublist sublist_def by blast
qed

lemma str_in_append_right: "str_in v b \<Longrightarrow> str_in v (a @ b)"
  by (induction a) simp_all

lemma clear_not_prefix:
  assumes "clear_of v w" and "w \<noteq> []"
  shows "\<not> prefix v (w @ R)"
proof
  assume p: "prefix v (w @ R)"
  from assms(2) obtain c cs where w: "w = c # cs" by (cases w) auto
  from assms(1) have a: "\<not> prefix v w" and b: "\<not> prefix w v" unfolding w by simp_all
  from p have "prefix v w \<or> (\<exists>us. v = w @ us \<and> prefix us R)" by (simp only: prefix_append)
  with a obtain us where "v = w @ us" by blast
  then have "prefix w v" by simp
  with b show False ..
qed

lemma clear_partition:
  "clear_of v w \<Longrightarrow>
   str_partition v (w @ R) = map_option (\<lambda>(b, a). (w @ b, a)) (str_partition v R)"
proof (induction w)
  case Nil
  show ?case by (simp add: option.map_ident)
next
  case (Cons c cs)
  from Cons.prems have "\<not> prefix v ((c # cs) @ R)" by (intro clear_not_prefix) simp_all
  moreover from Cons have "str_partition v (cs @ R)
      = map_option (\<lambda>(b, a). (cs @ b, a)) (str_partition v R)" by simp
  ultimately show ?case by (simp add: option.map_comp comp_def case_prod_unfold)
qed

lemma clear_replace: "clear_of v w \<Longrightarrow> str_replace v new (w @ R) = w @ str_replace v new R"
proof (induction w)
  case Nil
  show ?case by simp
next
  case (Cons c cs)
  from Cons.prems have "\<not> prefix v ((c # cs) @ R)" by (intro clear_not_prefix) simp_all
  with Cons show ?case by simp
qed

lemma clear_in: "clear_of v w \<Longrightarrow> str_in v (w @ R) \<longleftrightarrow> str_in v R"
proof (induction w)
  case Nil
  show ?case by simp
next
  case (Cons c cs)
  from Cons.prems have "\<not> prefix v ((c # cs) @ R)" by (intro clear_not_prefix) simp_all
  with Cons show ?case by simp
qed

lemma clear_of_append: "clear_of v a \<Longrightarrow> clear_of v b \<Longrightarrow> clear_of v (a @ b)"
proof (induction a)
  case Nil
  then show ?case by simp
next
  case (Cons c cs)
  from Cons.prems(1) have "\<not> prefix v ((c # cs) @ b)" by (intro clear_not_prefix) simp_all
  moreover have "\<not> prefix ((c # cs) @ b) v"
  proof
    assume "prefix ((c # cs) @ b) v"
    then have "prefix (c # cs) v" by (rule append_prefixD)
    with Cons.prems(1) show False by simp
  qed
  ultimately show ?case using Cons by simp
qed

lemma clear_of_concat: "\<forall>b\<in>set bs. clear_of v b \<Longrightarrow> clear_of v (concat bs)"
  by (induction bs) (auto intro: clear_of_append)

lemma replace_items:
  assumes "v \<noteq> []" and "\<forall>w\<in>set items. w = v \<or> clear_of v w"
  shows "str_replace v [] (concat items @ R) = concat (filter (\<lambda>w. w \<noteq> v) items) @ str_replace v [] R"
  using assms(2)
proof (induction items)
  case Nil
  show ?case by simp
next
  case (Cons w items)
  show ?case
  proof (cases "w = v")
    case True
    with Cons assms(1) show ?thesis by (simp add: str_replace_self)
  next
    case False
    with Cons.prems have "clear_of v w" by simp
    with False Cons show ?thesis by (simp add: clear_replace)
  qed
qed

lemma in_items:
  assumes "\<forall>w\<in>set items. w = v \<or> clear_of v w"
  shows "str_in v (concat items @ R) \<longleftrightarrow> v \<in> set items \<or> str_in v R"
  using assms
proof (induction items)
  case Nil
  show ?case by simp
next
  case (Cons w items)
  show ?case
  proof (cases "w = v")
    case True
    then show ?thesis using str_in_self [of v "concat items @ R"] by simp
  next
    case False
    with Cons.prems have "clear_of v w" by simp
    with False Cons show ?thesis by (auto simp: clear_in)
  qed
qed

lemma str_partition_Some: "str_partition sep s = Some (b, a) \<Longrightarrow> s = b @ sep @ a"
proof (induction s arbitrary: b)
  case Nil
  then show ?case by (simp split: if_splits)
next
  case (Cons c cs)
  show ?case
  proof (cases "prefix sep (c # cs)")
    case True
    with Cons.prems have "b = []" "a = drop (length sep) (c # cs)" by simp_all
    moreover from True have "c # cs = sep @ drop (length sep) (c # cs)"
      by (metis append_eq_conv_conj prefixE)
    ultimately show ?thesis by simp
  next
    case False
    with Cons.prems obtain b' where "str_partition sep cs = Some (b', a)" "b = c # b'"
      by auto
    with Cons.IH [of b'] show ?thesis by simp
  qed
qed

lemma hd_str_split_prefix: "prefix (hd (str_split sep s)) s"
proof (cases "str_partition sep s")
  case None
  then show ?thesis by (simp add: str_split.simps [of sep])
next
  case (Some p)
  obtain b a where p: "p = (b, a)" by (cases p)
  with Some have "s = b @ sep @ a" by (simp add: str_partition_Some)
  with Some p show ?thesis by (simp add: str_split.simps [of sep])
qed

lemma hd_str_split_clear:
  assumes "sep \<noteq> []" and "clear_of sep U"
  shows "hd (str_split sep (U @ V)) = U @ hd (str_split sep V)"
proof (cases "str_partition sep V")
  case None
  with clear_partition [OF assms(2), of V] have "str_partition sep (U @ V) = None" by simp
  with None show ?thesis by (simp add: str_split.simps [of sep])
next
  case (Some p)
  obtain b a where p: "p = (b, a)" by (cases p)
  with Some clear_partition [OF assms(2), of V] have "str_partition sep (U @ V) = Some (U @ b, a)"
    by simp
  with Some p assms(1) show ?thesis by (simp add: str_split_found)
qed

lemma clear_of_iff:
  "clear_of v w \<longleftrightarrow> (\<forall>t. t \<noteq> [] \<and> suffix t w \<longrightarrow> \<not> prefix v t \<and> \<not> prefix t v)"
proof (induction w)
  case Nil
  show ?case by simp
next
  case (Cons c cs)
  show ?case
    unfolding clear_of.simps Cons.IH suffix_Cons by blast
qed

lemma clear_snocI:
  assumes nin: "\<not> str_in v (u @ [c])"
    and pre: "\<And>t. suffix t u \<Longrightarrow> prefix (t @ [c]) v \<Longrightarrow> False"
  shows "clear_of v (u @ [c])"
  unfolding clear_of_iff
proof (intro allI impI)
  fix t
  assume "t \<noteq> [] \<and> suffix t (u @ [c])"
  then obtain t0 where t: "t = t0 @ [c]" and s: "suffix t0 u" and st: "suffix t (u @ [c])"
    by auto
  have "\<not> prefix v t"
  proof
    assume "prefix v t"
    with st have "sublist v (u @ [c])" unfolding sublist_altdef' by blast
    with nin show False by (simp add: str_in_sublist)
  qed
  moreover have "\<not> prefix t v" using pre [OF s] t by blast
  ultimately show "\<not> prefix v t \<and> \<not> prefix t v" ..
qed

lemma str_in_snoc_other:
  assumes "\<not> str_in v u" and "v \<noteq> []" and "last v \<noteq> c"
  shows "\<not> str_in v (u @ [c])"
proof
  assume "str_in v (u @ [c])"
  with assms(1) have "suffix v (u @ [c])" by (simp add: str_in_sublist sublist_snoc)
  with assms(2) obtain zs where "v = zs @ [c]" by auto
  with assms(3) show False by simp
qed

section \<open>Trimming a text made of items\<close>

lemma dropWhile_hd_id: "xs \<noteq> [] \<Longrightarrow> \<not> P (hd xs) \<Longrightarrow> dropWhile P xs = xs"
  by (cases xs) auto

lemma last_dropWhile: "dropWhile P xs \<noteq> [] \<Longrightarrow> last (dropWhile P xs) = last xs"
  by (induction xs) (auto split: if_splits)

lemma strip_snoc_space:
  assumes "is_space c"
  shows "str_strip (s @ [c]) = str_strip s"
proof (cases "\<forall>x\<in>set s. is_space x")
  case True
  then have a: "dropWhile is_space s = []" by (simp add: dropWhile_eq_Nil_conv)
  from True assms have b: "dropWhile is_space (s @ [c]) = []"
    by (simp add: dropWhile_eq_Nil_conv)
  show ?thesis unfolding str_strip_def a b ..
next
  case False
  then obtain x where "x \<in> set s" "\<not> is_space x" by blast
  then have "dropWhile is_space (s @ [c]) = dropWhile is_space s @ [c]"
    by (rule dropWhile_append1)
  with assms show ?thesis by (simp add: str_strip_def)
qed

lemma strip_last: 
  assumes "s \<noteq> []" and "\<not> is_space (last s)"
  shows "str_strip s = dropWhile is_space s"
proof -
  from assms have "last s \<in> set s" "\<not> is_space (last s)" by simp_all
  then have ne: "dropWhile is_space s \<noteq> []" by (auto simp: dropWhile_eq_Nil_conv)
  then have "last (dropWhile is_space s) = last s" by (rule last_dropWhile)
  with ne assms(2) have "dropWhile is_space (rev (dropWhile is_space s)) = rev (dropWhile is_space s)"
    by (intro dropWhile_hd_id) (simp_all add: hd_rev)
  then show ?thesis by (simp add: str_strip_def)
qed

lemma strip_solid: "solid s \<Longrightarrow> str_strip s = s"
  by (simp add: solid_def strip_last dropWhile_hd_id)

lemma not_solid_space: "\<not> solid '' ''"
  by (simp add: solid_def is_space_def)

lemma rtrim_snoc_space: "rtrim (xs @ ['' '']) = rtrim xs"
  by (simp add: rtrim_def)

lemma rtrim_snoc_other: "w \<noteq> '' '' \<Longrightarrow> rtrim (xs @ [w]) = xs @ [w]"
  by (simp add: rtrim_def)

lemma dropWhile_concat_items:
  "\<forall>w\<in>set items. w = '' '' \<or> solid w \<Longrightarrow>
   dropWhile is_space (concat items) = concat (dropWhile (\<lambda>w. w = '' '') items)"
proof (induction items)
  case Nil
  show ?case by simp
next
  case (Cons w items)
  show ?case
  proof (cases "w = '' ''")
    case True
    with Cons show ?thesis by (simp add: is_space_def)
  next
    case False
    with Cons.prems have "solid w" by simp
    then have "dropWhile is_space (w @ concat items) = w @ concat items"
      by (intro dropWhile_hd_id) (simp_all add: solid_def)
    with False show ?thesis by simp
  qed
qed

lemma strip_items:
  "\<forall>w\<in>set items. w = '' '' \<or> solid w \<Longrightarrow>
   str_strip (concat items) = concat (dropWhile (\<lambda>w. w = '' '') (rtrim items))"
proof (induction items rule: rev_induct)
  case Nil
  show ?case by (simp add: str_strip_def rtrim_def)
next
  case (snoc w items)
  show ?case
  proof (cases "w = '' ''")
    case True
    have "str_strip (concat (items @ [w])) = str_strip (concat items @ [CHR '' ''])"
      using True by simp
    also have "\<dots> = str_strip (concat items)"
      by (rule strip_snoc_space) (simp add: is_space_def)
    finally show ?thesis using snoc True by (simp add: rtrim_snoc_space)
  next
    case False
    with snoc.prems have w: "solid w" by simp
    then have "concat (items @ [w]) \<noteq> []" "\<not> is_space (last (concat (items @ [w])))"
      by (simp_all add: solid_def)
    then have "str_strip (concat (items @ [w])) = dropWhile is_space (concat (items @ [w]))"
      by (rule strip_last)
    also have "\<dots> = concat (dropWhile (\<lambda>w. w = '' '') (items @ [w]))"
      using snoc.prems by (intro dropWhile_concat_items) simp
    finally show ?thesis using False by (simp add: rtrim_snoc_other)
  qed
qed

lemma strip_pre_items:
  assumes "solid T"
  shows "\<forall>w\<in>set items. w = '' '' \<or> solid w \<Longrightarrow>
         str_strip (T @ concat items) = T @ concat (rtrim items)"
proof (induction items rule: rev_induct)
  case Nil
  from assms show ?case by (simp add: strip_solid rtrim_def)
next
  case (snoc w items)
  show ?case
  proof (cases "w = '' ''")
    case True
    have "str_strip (T @ concat (items @ [w])) = str_strip ((T @ concat items) @ [CHR '' ''])"
      using True by simp
    also have "\<dots> = str_strip (T @ concat items)"
      by (rule strip_snoc_space) (simp add: is_space_def)
    finally show ?thesis using snoc True by (simp add: rtrim_snoc_space)
  next
    case False
    with snoc.prems have w: "solid w" by simp
    with assms have "solid (T @ concat (items @ [w]))" by (simp add: solid_def)
    then have "str_strip (T @ concat (items @ [w])) = T @ concat (items @ [w])"
      by (rule strip_solid)
    with False show ?thesis by (simp add: rtrim_snoc_other)
  qed
qed

lemma strip_body:
  assumes "T = [] \<or> solid T" and "\<forall>w\<in>set items. w = '' '' \<or> solid w"
  shows "str_strip (T @ concat items) = T @ concat (trim_items T items)"
proof (cases "T = []")
  case True
  with assms(2) show ?thesis by (simp add: trim_items_def strip_items)
next
  case False
  with assms have "solid T" by simp
  from strip_pre_items [OF this assms(2)] False show ?thesis by (simp add: trim_items_def)
qed

lemma rtrim_last: "rtrim xs = [] \<or> last (rtrim xs) \<noteq> '' ''"
proof (cases "dropWhile (\<lambda>w. w = '' '') (rev xs) = []")
  case True
  then show ?thesis by (simp add: rtrim_def)
next
  case False
  then have "hd (dropWhile (\<lambda>w. w = '' '') (rev xs)) \<noteq> '' ''"
    using hd_dropWhile [of "\<lambda>w. w = '' ''" "rev xs"] by simp
  with False show ?thesis by (simp add: rtrim_def last_rev)
qed

lemma trimmed_trim_items: "trimmed T (trim_items T items)"
proof (cases "T = []")
  case False
  then show ?thesis using rtrim_last [of items] by (simp add: trimmed_def trim_items_def)
next
  case True
  let ?d = "dropWhile (\<lambda>w. w = '' '') (rtrim items)"
  have "?d = [] \<or> (last ?d \<noteq> '' '' \<and> hd ?d \<noteq> '' '')"
  proof (cases "?d = []")
    case False
    then have "last ?d = last (rtrim items)" by (rule last_dropWhile)
    moreover from False have "rtrim items \<noteq> []" by auto
    moreover from False have "hd ?d \<noteq> '' ''"
      using hd_dropWhile [of "\<lambda>w. w = '' ''" "rtrim items"] by simp
    ultimately show ?thesis using rtrim_last [of items] by simp
  qed simp
  with True show ?thesis by (auto simp: trimmed_def trim_items_def)
qed

lemma trimmed_spaces: "trimmed T items \<Longrightarrow> set items \<subseteq> {'' ''} \<Longrightarrow> items = []"
proof (rule ccontr)
  assume t: "trimmed T items" and s: "set items \<subseteq> {'' ''}" and ne: "items \<noteq> []"
  from ne have "last items \<in> set items" by simp
  with s have "last items = '' ''" by blast
  with t ne show False by (simp add: trimmed_def)
qed

lemma set_dropWhile_keep: "\<not> P x \<Longrightarrow> x \<in> set (dropWhile P xs) \<longleftrightarrow> x \<in> set xs"
  by (induction xs) auto

lemma set_trim_items:
  "w \<noteq> '' '' \<Longrightarrow> w \<in> set (trim_items T items) \<longleftrightarrow> w \<in> set items"
  by (simp add: trim_items_def rtrim_def set_dropWhile_keep)

lemma set_rtrim_subset: "set (rtrim items) \<subseteq> set items"
proof
  fix x
  assume "x \<in> set (rtrim items)"
  then have "x \<in> set (dropWhile (\<lambda>w. w = '' '') (rev items))" by (simp add: rtrim_def)
  then have "x \<in> set (rev items)" by (rule set_dropWhileD)
  then show "x \<in> set items" by simp
qed

lemma set_trim_items_subset: "set (trim_items T items) \<subseteq> set items"
  using set_rtrim_subset [of items] by (auto simp: trim_items_def dest!: set_dropWhileD)

lemma rtrim_prefix: "prefix (rtrim xs) xs"
proof -
  have "suffix (dropWhile (\<lambda>w. w = '' '') (rev xs)) (rev xs)" by (rule suffix_dropWhile)
  then show ?thesis by (simp add: rtrim_def suffix_to_prefix)
qed

lemma hd_rtrim: "rtrim xs \<noteq> [] \<Longrightarrow> hd (rtrim xs) = hd xs"
  using rtrim_prefix [of xs] by (cases "rtrim xs"; cases xs) auto

lemma solid_strip:
  assumes "T \<noteq> []" and "str_strip T = T"
  shows "solid T"
proof -
  let ?D = "dropWhile is_space T"
  have le: "length (dropWhile is_space (rev ?D)) \<le> length ?D"
    using length_dropWhile_le [of is_space "rev ?D"] by simp
  have len: "length (dropWhile is_space (rev ?D)) = length T"
    using assms(2) by (metis length_rev str_strip_def)
  have "length ?D \<le> length T" by (rule length_dropWhile_le)
  with le len have D: "length ?D = length T" by simp
  have h: "\<not> is_space (hd T)"
  proof
    assume "is_space (hd T)"
    with assms(1) have "length ?D < length T"
      using length_dropWhile_le [of is_space "tl T"] by (cases T) auto
    with D show False by simp
  qed
  with assms(1) have DT: "?D = T" by (rule dropWhile_hd_id)
  have "\<not> is_space (last T)"
  proof
    assume "is_space (last T)"
    with assms(1) have "length (dropWhile is_space (rev T)) < length T"
      using length_dropWhile_le [of is_space "tl (rev T)"]
      by (cases "rev T") (auto simp: last_rev hd_rev [symmetric])
    with len DT show False by simp
  qed
  with h assms(1) show ?thesis by (simp add: solid_def)
qed

section \<open>The activity list\<close>

lemma distinct_activity_types: "distinct activity_types"
  by (simp add: activity_types_def)

lemma activity_types_nonempty: "activity_types \<noteq> []"
  by (simp add: activity_types_def)

text \<open>The loop only ever appends, and what it appends follows the order of the table.\<close>

lemma scan_activities_extends:
  "scan_activities vs (acts, d) = (acts', d') \<Longrightarrow> \<exists>zs. acts' = acts @ zs \<and> subseq zs vs"
proof (induction vs arbitrary: acts d)
  case Nil
  then show ?case by simp
next
  case (Cons v vs)
  show ?case
  proof (cases "str_in v d")
    case True
    with Cons.prems have "scan_activities vs (acts @ [v], str_strip (str_replace v [] d)) = (acts', d')"
      by simp
    from Cons.IH [OF this] obtain zs where "acts' = (acts @ [v]) @ zs" "subseq zs vs" by blast
    then have "acts' = acts @ (v # zs) \<and> subseq (v # zs) (v # vs)" by simp
    then show ?thesis by blast
  next
    case False
    with Cons.prems have "scan_activities vs (acts, d) = (acts', d')" by simp
    from Cons.IH [OF this] obtain zs where "acts' = acts @ zs" "subseq zs vs" by blast
    then have "acts' = acts @ zs \<and> subseq zs (v # vs)" by (simp add: list_emb_Cons)
    then show ?thesis by blast
  qed
qed

text \<open>Nothing is appended exactly when no phrase of the table occurs in the text.\<close>

lemma scan_activities_none:
  "scan_activities vs (acts, d) = (acts', d') \<Longrightarrow> acts' = acts \<longleftrightarrow> (\<forall>v\<in>set vs. \<not> str_in v d)"
proof (induction vs arbitrary: acts d)
  case Nil
  then show ?case by simp
next
  case (Cons v vs)
  show ?case
  proof (cases "str_in v d")
    case True
    with Cons.prems have "scan_activities vs (acts @ [v], str_strip (str_replace v [] d)) = (acts', d')"
      by simp
    from scan_activities_extends [OF this] have "acts' \<noteq> acts" by auto
    with True show ?thesis by auto
  next
    case False
    with Cons.prems have "scan_activities vs (acts, d) = (acts', d')" by simp
    from Cons.IH [OF this] False show ?thesis by simp
  qed
qed

text \<open>
  Claim C10: whenever the parser returns a record, its \<open>activities\<close> are a subsequence
  of the six-phrase table in the order of the table, without duplicates and without any
  phrase foreign to the table; the two all-activity branches return the whole table.
\<close>

theorem C10_activities_subseq:
  assumes "parse_description d = Inr r"
  shows "subseq (activities r) activity_types \<and> distinct (activities r)
         \<and> set (activities r) \<subseteq> set activity_types
         \<and> (str_startswith d ''All post activity to''
              \<or> (\<exists>rest. index (str_split ''Any '' d) 1 = Inr rest \<and> str_in ''posts to'' rest)
            \<longrightarrow> activities r = activity_types)"
proof -
  have sub: "subseq (activities r) activity_types"
    using assms
    by (auto simp: parse_description_def split: if_splits sum.splits prod.splits
             dest: scan_activities_extends)
  have full: "str_startswith d ''All post activity to''
              \<or> (\<exists>rest. index (str_split ''Any '' d) 1 = Inr rest \<and> str_in ''posts to'' rest)
            \<longrightarrow> activities r = activity_types"
    using assms
    by (auto simp: parse_description_def split: if_splits sum.splits prod.splits)
  from sub have "activities r \<in> set (subseqs activity_types)" by simp
  then have "distinct (activities r)"
    using distinct_activity_types by (rule subseqs_distinctD)
  moreover from sub have "set (activities r) \<subseteq> set activity_types"
    by (auto dest: list_emb_set)
  ultimately show ?thesis using sub full by blast
qed

theorem C10_activities_subseq_witness:
  "parse_description ''Any aws questions answers to #admiral''
     = Inr \<lparr>channel = ''#admiral'', tags = [''aws''], activities = [''questions'', ''answers'']\<rparr>
   \<and> subseq [''questions'', ''answers''] activity_types
   \<and> distinct [''questions'', ''answers'']
   \<and> set [''questions'', ''answers''] \<subseteq> set activity_types"
proof -
  have h: "parse_description ''Any aws questions answers to #admiral''
     = Inr \<lparr>channel = ''#admiral'', tags = [''aws''], activities = [''questions'', ''answers'']\<rparr>"
    by code_simp
  from C10_activities_subseq [OF h] h show ?thesis by simp
qed

text \<open>
  Claim C4, as stated: every record has a non-empty \<open>activities\<close> list. The explicit
  branch starts from the empty list and appends only the phrases it finds, so a body with
  no phrase of the table gives a record with no activity.
\<close>

theorem C4_counterexample:
  "parse_description ''Any foo to bar''
     = Inr \<lparr>channel = ''bar'', tags = [''foo''], activities = []\<rparr>"
  by code_simp

text \<open>
  Claim C4, amended: the \<open>activities\<close> of a returned record are empty exactly when the
  description took the explicit branch (no \<open>"All post activity to"\<close> prefix, no
  \<open>"posts to"\<close> after \<open>"Any "\<close>) and no phrase of the table occurs in the body, the text
  before the first \<open>" to "\<close>; in every other case they are non-empty.
\<close>

theorem C4_activities_empty_iff:
  assumes "parse_description d = Inr r"
  shows "activities r = [] \<longleftrightarrow>
         \<not> str_startswith d ''All post activity to''
         \<and> (\<exists>rest body. index (str_split ''Any '' d) 1 = Inr rest
              \<and> \<not> str_in ''posts to'' rest
              \<and> index (str_split '' to '' rest) 0 = Inr body
              \<and> (\<forall>v\<in>set activity_types. \<not> str_in v body))"
  using assms activity_types_nonempty
  by (auto simp: parse_description_def index_0_split
           split: if_splits sum.splits prod.splits
           dest!: scan_activities_none [where acts = "[]"])

theorem C4_activities_empty_iff_witness:
  "parse_description ''Any aws questions answers to #admiral''
     = Inr \<lparr>channel = ''#admiral'', tags = [''aws''], activities = [''questions'', ''answers'']\<rparr>
   \<and> \<not> (\<not> str_startswith ''Any aws questions answers to #admiral'' ''All post activity to''
         \<and> (\<exists>rest body. index (str_split ''Any '' ''Any aws questions answers to #admiral'') 1 = Inr rest
              \<and> \<not> str_in ''posts to'' rest
              \<and> index (str_split '' to '' rest) 0 = Inr body
              \<and> (\<forall>v\<in>set activity_types. \<not> str_in v body)))"
proof -
  have h: "parse_description ''Any aws questions answers to #admiral''
     = Inr \<lparr>channel = ''#admiral'', tags = [''aws''], activities = [''questions'', ''answers'']\<rparr>"
    by code_simp
  from C4_activities_empty_iff [OF h] h show ?thesis by simp
qed

section \<open>Malformed descriptions and the channel\<close>




text \<open>
  Claim C5, as stated: no record has an empty channel. The source takes the second piece
  of a split and never looks at it, so a separator followed directly by another separator,
  or by the end of the text, gives a record whose channel is the empty string. The second
  input below is what the clean-up makes of \<open>"All post activity to ,"\<close>.
\<close>

theorem C5_counterexample:
  "parse_description ''Any questions to  to x''
     = Inr \<lparr>channel = [], tags = [''all''], activities = [''questions'']\<rparr>
   \<and> normalize_description ''All post activity to ,'' = ''All post activity to ''
   \<and> parse_description ''All post activity to ''
     = Inr \<lparr>channel = [], tags = [''all''], activities = activity_types\<rparr>"
  by code_simp

text \<open>
  Claim C5, amended: a description that reaches a branch without the separator of that
  branch fails with an index error and gives no record: \<open>"All post activity to "\<close> is
  missing in the first branch, or \<open>" to "\<close> is missing from the text after \<open>"Any "\<close>
  in the second. (A separator with nothing after it does give a record.)
\<close>

theorem C5_missing_separator_fails:
  "(str_startswith d ''All post activity to'' \<and> \<not> str_in ''All post activity to '' d
      \<longrightarrow> parse_description d = Inl IndexError)
   \<and> (\<not> str_startswith d ''All post activity to''
        \<and> index (str_split ''Any '' d) 1 = Inr rest \<and> \<not> str_in '' to '' rest
      \<longrightarrow> parse_description d = Inl IndexError)"
  by (simp add: parse_description_def str_split_notin index_def)

theorem C5_missing_separator_fails_witness:
  "(str_startswith ''All post activity to'' ''All post activity to''
      \<and> \<not> str_in ''All post activity to '' ''All post activity to''
      \<and> parse_description ''All post activity to'' = Inl IndexError)
   \<and> (\<not> str_startswith ''Any questions'' ''All post activity to''
        \<and> index (str_split ''Any '' ''Any questions'') 1 = Inr ''questions''
        \<and> \<not> str_in '' to '' ''questions''
        \<and> parse_description ''Any questions'' = Inl IndexError)"
proof -
  have a: "str_startswith ''All post activity to'' ''All post activity to''
      \<and> \<not> str_in ''All post activity to '' ''All post activity to''"
    by code_simp
  have b: "\<not> str_startswith ''Any questions'' ''All post activity to''
        \<and> index (str_split ''Any '' ''Any questions'') 1 = Inr ''questions''
        \<and> \<not> str_in '' to '' ''questions''"
    by code_simp
  from a b C5_missing_separator_fails [of "''All post activity to''" "[]"]
    C5_missing_separator_fails [of "''Any questions''" "''questions''"]
  show ?thesis by blast
qed

text \<open>
  Claim C2 at an input where the prefix text comes back inside the channel: the claim
  gives the channel \<open>"a All post activity to b"\<close>, the source keeps only the piece up to
  the second occurrence.
\<close>

theorem C2_failing_input:
  "str_startswith ''All post activity to a All post activity to b'' ''All post activity to ''
   \<and> parse_description ''All post activity to a All post activity to b''
       = Inr \<lparr>channel = ''a '', tags = [''all''], activities = activity_types\<rparr>"
  by code_simp

text \<open>
  Claim C7 at an input with two occurrences of \<open>" to "\<close>: the claim gives the channel
  \<open>"Intro to Python"\<close>, everything after the first occurrence; the source keeps only the
  piece between the first and the second.
\<close>

theorem C7_failing_input:
  "\<not> str_in ''posts to'' ''questions answers to Intro to Python''
   \<and> parse_description ''Any questions answers to Intro to Python''
       = Inr \<lparr>channel = ''Intro'', tags = [''all''], activities = [''questions'', ''answers'']\<rparr>"
  by code_simp

section \<open>The all-activity branch after "Any"\<close>

lemma posts_to_first:
  assumes "\<not> str_in '' posts to '' (T @ '' '')"
  shows "\<not> str_in '' posts to '' (T @ '' posts to'')"
proof -
  have "str_in '' posts to '' (T @ '' posts to'')
        \<longleftrightarrow> str_in (rev '' posts to '') (rev (T @ '' posts to''))"
    by (rule str_in_rev)
  also have "\<dots> \<longleftrightarrow> str_in (rev '' posts to '') (rev (T @ '' ''))" by simp
  also have "\<dots> \<longleftrightarrow> str_in '' posts to '' (T @ '' '')" by (rule str_in_rev [symmetric])
  finally show ?thesis using assms by simp
qed

lemma Any_not_across:
  assumes "\<not> str_in ''Any '' (T @ '' '')"
  shows "\<not> str_in ''Any '' (T @ '' po'')"
proof -
  have "str_in ''Any '' (T @ '' po'') \<longleftrightarrow> str_in (rev ''Any '') (rev (T @ '' po''))"
    by (rule str_in_rev)
  also have "\<dots> \<longleftrightarrow> str_in (rev ''Any '') (rev (T @ '' ''))" by simp
  also have "\<dots> \<longleftrightarrow> str_in ''Any '' (T @ '' '')" by (rule str_in_rev [symmetric])
  finally show ?thesis using assms by simp
qed

lemma Any_after_posts_to:
  "hd (str_split ''Any '' ('' posts to '' @ ch)) = '' posts to '' @ hd (str_split ''Any '' ch)"
proof -
  have "str_partition ''Any '' ('' posts to '' @ ch)
        = map_option (\<lambda>(b, a). ('' posts to '' @ b, a)) (str_partition ''Any '' ch)"
    by (simp add: option.map_comp comp_def case_prod_unfold)
  then show ?thesis
    by (cases "str_partition ''Any '' ch")
       (auto simp: str_split.simps [of "''Any ''"] simp del: str_partition.simps)
qed

text \<open>
  Claim C3, as stated: tags are the tokens of the text between \<open>"Any "\<close> and
  \<open>" posts to "\<close>, empty tokens discarded, for every non-empty space-delimited tag list.
  The source splits on the single space and keeps every piece, so a doubled space gives an
  empty tag; and it splits on \<open>"Any "\<close> wherever that occurs, so a tag that ends in
  \<open>Any\<close> cuts the text short and the parse fails.
\<close>

theorem C3_counterexample:
  "parse_description ''Any a  b posts to c''
     = Inr \<lparr>channel = ''c'', tags = [''a'', [], ''b''], activities = activity_types\<rparr>
   \<and> parse_description ''Any Any posts to c'' = Inl IndexError"
  by code_simp

text \<open>
  Claim C3, amended: for every description \<open>"Any " + T + " posts to " + ch\<close> in which
  neither \<open>"Any "\<close> nor \<open>" posts to "\<close> occurs in the tag text \<open>T\<close> followed by a
  space, the parser returns a record whose activities are the whole table and whose tags
  are \<open>T.split(' ')\<close>: the pieces of \<open>T\<close> between single spaces, an empty piece kept
  for every leading, trailing or doubled space.
\<close>

theorem C3_posts_to:
  assumes d: "d = ''Any '' @ T @ '' posts to '' @ ch"
    and any: "\<not> str_in ''Any '' (T @ '' '')"
    and posts: "\<not> str_in '' posts to '' (T @ '' '')"
  shows "\<exists>c. parse_description d
              = Inr \<lparr>channel = c, tags = str_split '' '' T, activities = activity_types\<rparr>"
proof -
  let ?ch = "hd (str_split ''Any '' ch)"
  let ?rest = "T @ '' posts to '' @ ?ch"
  have not_all: "\<not> str_startswith d ''All post activity to''"
    by (simp add: d str_startswith_def)
  have "str_partition ''Any '' (''Any '' @ T @ '' posts to '' @ ch)
        = Some ([], T @ '' posts to '' @ ch)"
    by (rule str_partition_self) simp
  then have "str_split ''Any '' d = [] # str_split ''Any '' (T @ '' posts to '' @ ch)"
    unfolding d by (intro str_split_found) simp_all
  moreover have "hd (str_split ''Any '' (T @ '' posts to '' @ ch)) = ?rest"
  proof -
    have "\<not> str_in ''Any '' (T @ take (length ''Any '' - 1) ('' posts to '' @ ch))"
      using Any_not_across [OF any] by simp
    then have "hd (str_split ''Any '' (T @ '' posts to '' @ ch))
               = T @ hd (str_split ''Any '' ('' posts to '' @ ch))"
      by (intro hd_str_split_append) simp_all
    then show ?thesis by (simp only: Any_after_posts_to)
  qed
  ultimately have rest: "index (str_split ''Any '' d) 1 = Inr ?rest"
    using str_split_nonempty [of "''Any ''" "T @ '' posts to '' @ ch"]
    by (cases "str_split ''Any '' (T @ '' posts to '' @ ch)") (simp_all add: index_def)
  have "str_in '' to '' ((T @ '' posts'') @ '' to '' @ ?ch)" by (rule str_in_mid)
  then have "str_in '' to '' ?rest" by simp
  then obtain c where c: "index (str_split '' to '' ?rest) 1 = Inr c"
    using index_1_str_split [of "'' to ''" ?rest] by auto
  have "str_in ''posts to'' ((T @ '' '') @ ''posts to'' @ ('' '' @ ?ch))" by (rule str_in_mid)
  then have branch: "str_in ''posts to'' ?rest" by simp
  have "str_partition '' posts to '' (T @ '' posts to '' @ ?ch) = Some (T, ?ch)"
    using posts_to_first [OF posts] by (intro str_partition_first) simp_all
  then have "hd (str_split '' posts to '' ?rest) = T"
    by (simp add: str_split_found del: str_partition.simps)
  then have t: "index (str_split '' posts to '' ?rest) 0 = Inr T"
    by (simp add: index_0_split)
  show ?thesis
    unfolding parse_description_def
    by (simp only: not_all rest c branch t if_True if_False sum.case) blast
qed

theorem C3_posts_to_witness:
  "\<not> str_in ''Any '' (''aws  kubernetes'' @ '' '')
   \<and> \<not> str_in '' posts to '' (''aws  kubernetes'' @ '' '')
   \<and> (\<exists>c. parse_description (''Any '' @ ''aws  kubernetes'' @ '' posts to '' @ ''#mits-demo'')
            = Inr \<lparr>channel = c, tags = [''aws'', [], ''kubernetes''],
                   activities = activity_types\<rparr>)"
proof -
  have a: "\<not> str_in ''Any '' (''aws  kubernetes'' @ '' '')" by code_simp
  have b: "\<not> str_in '' posts to '' (''aws  kubernetes'' @ '' '')" by code_simp
  have s: "str_split '' '' ''aws  kubernetes'' = [''aws'', [], ''kubernetes'']" by code_simp
  from C3_posts_to [OF refl a b, of "''#mits-demo''"] a b show ?thesis
    by (simp only: s simp_thms)
qed

section \<open>The scan on a tag text followed by phrases\<close>

lemma pre_replace:
  assumes pre: "T = [] \<or> clear_of v (T @ '' '')" and sp: "clear_of v '' ''" and v: "v \<noteq> []"
    and hd: "T \<noteq> [] \<longrightarrow> items = [] \<or> hd items = '' ''"
  shows "str_replace v [] (T @ concat items) = T @ str_replace v [] (concat items)"
    and "str_in v (T @ concat items) \<longleftrightarrow> str_in v (concat items)"
proof -
  have "str_replace v [] (T @ concat items) = T @ str_replace v [] (concat items)
        \<and> (str_in v (T @ concat items) \<longleftrightarrow> str_in v (concat items))"
  proof (cases "T = []")
    case True
    then show ?thesis by simp
  next
    case False
    with pre have cl: "clear_of v (T @ '' '')" by simp
    show ?thesis
    proof (cases items)
      case Nil
      from clear_in [OF cl, of "[]"] v have "\<not> str_in v (T @ '' '')" by simp
      then have "\<not> str_in v T" using str_in_append_left by blast
      with Nil v show ?thesis by (simp add: str_replace_notin)
    next
      case (Cons w rest)
      with hd False have w: "w = '' ''" by simp
      have "str_replace v [] ((T @ '' '') @ concat rest) = (T @ '' '') @ str_replace v [] (concat rest)"
        using cl by (rule clear_replace)
      moreover have "str_replace v [] ('' '' @ concat rest) = '' '' @ str_replace v [] (concat rest)"
        using sp by (rule clear_replace)
      moreover have "str_in v ((T @ '' '') @ concat rest) \<longleftrightarrow> str_in v (concat rest)"
        using cl by (rule clear_in)
      moreover have "str_in v ('' '' @ concat rest) \<longleftrightarrow> str_in v (concat rest)"
        using sp by (rule clear_in)
      ultimately show ?thesis using Cons w by simp
    qed
  qed
  then show "str_replace v [] (T @ concat items) = T @ str_replace v [] (concat items)"
    and "str_in v (T @ concat items) \<longleftrightarrow> str_in v (concat items)" by simp_all
qed

lemma scan_items:
  assumes T: "T = [] \<or> solid T"
  shows "\<lbrakk>distinct vs; '' '' \<notin> set vs;
          \<forall>v\<in>set vs. solid v \<and> clear_of v '' '' \<and> (T = [] \<or> clear_of v (T @ '' ''));
          later_clear vs; set items \<subseteq> insert '' '' (set vs); trimmed T items;
          T \<noteq> [] \<longrightarrow> items = [] \<or> hd items = '' ''\<rbrakk>
         \<Longrightarrow> scan_activities vs (acts, T @ concat items)
             = (acts @ filter (\<lambda>v. v \<in> set items) vs, T)"
proof (induction vs arbitrary: acts items)
  case Nil
  then have "items = []" using trimmed_spaces [of T items] by simp
  then show ?case by simp
next
  case (Cons v vs)
  from Cons.prems have v: "solid v" "clear_of v '' ''" "T = [] \<or> clear_of v (T @ '' '')"
    and vne: "v \<noteq> '' ''" and vnew: "v \<notin> set vs" by auto
  from v(1) have vnil: "v \<noteq> []" by (simp add: solid_def)
  from Cons.prems have solid_vs: "\<forall>u\<in>set vs. solid u" by simp
  have cl: "\<forall>w\<in>set items. w = v \<or> clear_of v w"
  proof
    fix w assume "w \<in> set items"
    with Cons.prems(5) have "w = '' '' \<or> w = v \<or> w \<in> set vs" by auto
    with v(2) Cons.prems(4) show "w = v \<or> clear_of v w" by auto
  qed
  have found: "str_in v (T @ concat items) \<longleftrightarrow> v \<in> set items"
    using pre_replace(2) [OF v(3) v(2) vnil Cons.prems(7)] in_items [OF cl, of "[]"] vnil
    by simp
  have ih_prems: "distinct vs" "'' '' \<notin> set vs"
    "\<forall>v\<in>set vs. solid v \<and> clear_of v '' '' \<and> (T = [] \<or> clear_of v (T @ '' ''))"
    "later_clear vs"
    using Cons.prems by simp_all
  show ?case
  proof (cases "v \<in> set items")
    case False
    with Cons.prems(5) have sub: "set items \<subseteq> insert '' '' (set vs)" by auto
    from False found have "scan_activities (v # vs) (acts, T @ concat items)
        = scan_activities vs (acts, T @ concat items)" by simp
    also have "\<dots> = (acts @ filter (\<lambda>v. v \<in> set items) vs, T)"
      using ih_prems sub Cons.prems(6,7) by (rule Cons.IH)
    finally show ?thesis using False by simp
  next
    case True
    let ?f = "filter (\<lambda>w. w \<noteq> v) items"
    let ?items = "trim_items T ?f"
    have rep: "str_replace v [] (T @ concat items) = T @ concat ?f"
      using pre_replace(1) [OF v(3) v(2) vnil Cons.prems(7)] replace_items [OF vnil cl, of "[]"]
      by simp
    have okf: "\<forall>w\<in>set ?f. w = '' '' \<or> solid w"
    proof
      fix w assume "w \<in> set ?f"
      with Cons.prems(5) have "w = '' '' \<or> w \<in> set vs" by auto
      with solid_vs show "w = '' '' \<or> solid w" by auto
    qed
    have strip: "str_strip (T @ concat ?f) = T @ concat ?items"
      using T okf by (rule strip_body)
    have sub: "set ?items \<subseteq> insert '' '' (set vs)"
      using set_trim_items_subset [of T ?f] Cons.prems(5) by auto
    have tr: "trimmed T ?items" by (rule trimmed_trim_items)
    have hd': "T \<noteq> [] \<longrightarrow> ?items = [] \<or> hd ?items = '' ''"
    proof
      assume TN: "T \<noteq> []"
      with Cons.prems(7) True obtain rest where items: "items = '' '' # rest"
        by (cases items) auto
      with vne have "hd ?f = '' ''" by auto
      with TN show "?items = [] \<or> hd ?items = '' ''"
        using hd_rtrim [of ?f] by (auto simp: trim_items_def)
    qed
    have same: "filter (\<lambda>u. u \<in> set ?items) vs = filter (\<lambda>u. u \<in> set items) vs"
    proof (rule filter_cong [OF refl])
      fix u assume u: "u \<in> set vs"
      with ih_prems(2) vnew have "u \<noteq> '' ''" "u \<noteq> v" by auto
      then show "u \<in> set ?items \<longleftrightarrow> u \<in> set items"
        by (simp add: set_trim_items)
    qed
    from True found have "scan_activities (v # vs) (acts, T @ concat items)
        = scan_activities vs (acts @ [v], T @ concat ?items)"
      by (simp add: rep strip)
    also have "\<dots> = ((acts @ [v]) @ filter (\<lambda>u. u \<in> set ?items) vs, T)"
      using ih_prems sub tr hd' by (rule Cons.IH)
    finally show ?thesis using True same by simp
  qed
qed

lemma later_clear_activity_types: "later_clear activity_types"
  by (simp add: activity_types_def)

lemma activity_types_blocks:
  "\<forall>v\<in>set activity_types. solid v \<and> clear_of v '' ''" "'' '' \<notin> set activity_types"
  by (simp_all add: activity_types_def solid_def is_space_def)

lemma scan_activity_types:
  assumes "T = [] \<or> solid T"
    and "T \<noteq> [] \<longrightarrow> (\<forall>v\<in>set activity_types. clear_of v (T @ '' ''))"
    and "set items \<subseteq> insert '' '' (set activity_types)"
    and "trimmed T items"
    and "T \<noteq> [] \<longrightarrow> items = [] \<or> hd items = '' ''"
  shows "scan_activities activity_types ([], T @ concat items)
         = (filter (\<lambda>v. v \<in> set items) activity_types, T)"
proof -
  have "\<forall>v\<in>set activity_types. solid v \<and> clear_of v '' '' \<and> (T = [] \<or> clear_of v (T @ '' ''))"
    using activity_types_blocks(1) assms(2) by blast
  from scan_items [OF assms(1) distinct_activity_types activity_types_blocks(2) this
      later_clear_activity_types assms(3,4,5), of "[]"]
  show ?thesis by simp
qed

lemma str_join_spaced: "str_join '' '' L = concat (tl (spaced L))"
  by (induction "'' ''" L rule: str_join.induct) simp_all

lemma space_str_join: "L \<noteq> [] \<Longrightarrow> '' '' @ str_join '' '' L = concat (spaced L)"
  by (cases L) (simp_all add: str_join_spaced)

lemma concat_spaced: "concat (spaced L) = concat (map (\<lambda>w. '' '' @ w) L)"
  by (induction L) simp_all

lemma str_join_blocks: "str_join '' '' (x # ws) = x @ concat (map (\<lambda>w. '' '' @ w) ws)"
  by (simp add: str_join_spaced concat_spaced)

lemma spaced_Nil: "spaced L = [] \<longleftrightarrow> L = []"
  by (cases L) simp_all

lemma set_spaced: "set (spaced L) = (if L = [] then {} else insert '' '' (set L))"
  by (induction L) auto

lemma set_tl_spaced: "set (tl (spaced L)) \<subseteq> insert '' '' (set L)"
  by (cases L) (auto simp: set_spaced split: if_splits)

lemma in_spaced: "v \<noteq> '' '' \<Longrightarrow> v \<in> set (spaced L) \<longleftrightarrow> v \<in> set L"
  by (auto simp: set_spaced split: if_splits)

lemma in_tl_spaced: "v \<noteq> '' '' \<Longrightarrow> v \<in> set (tl (spaced L)) \<longleftrightarrow> v \<in> set L"
  by (cases L) (auto simp: in_spaced)

lemma last_spaced: "L \<noteq> [] \<Longrightarrow> last (spaced L) = last L"
  by (induction L) (auto simp: spaced_Nil)

lemma trimmed_spaced:
  assumes "'' '' \<notin> set L"
  shows "trimmed T (if T = [] then tl (spaced L) else spaced L)"
proof (cases L)
  case Nil
  then show ?thesis by (simp add: trimmed_def)
next
  case (Cons x xs)
  with assms have x: "x \<noteq> '' ''" and l: "last L \<noteq> '' ''"
    using last_in_set [of L] by auto
  have "last (spaced L) = last L" using Cons by (intro last_spaced) simp
  moreover have "last (tl (spaced L)) = last (spaced L)" using Cons by simp
  ultimately show ?thesis using Cons x l by (simp add: trimmed_def)
qed

lemma clear_Any:
  "\<forall>v\<in>set activity_types. clear_of ''Any '' v" "clear_of ''Any '' '' ''" "clear_of ''Any '' '' to ''"
  by (simp_all add: activity_types_def)

lemma clear_to:
  "\<forall>v\<in>set activity_types. clear_of '' to '' v \<and> clear_of '' to '' ('' '' @ v)"
  by (simp add: activity_types_def)

lemma clear_to_join:
  assumes "set L \<subseteq> set activity_types"
  shows "clear_of '' to '' (concat (map (\<lambda>w. '' '' @ w) L))"
proof (rule clear_of_concat)
  show "\<forall>b\<in>set (map (\<lambda>w. '' '' @ w) L). clear_of '' to '' b"
    using assms clear_to by auto
qed

lemma clear_Any_join:
  assumes "set L \<subseteq> set activity_types"
  shows "clear_of ''Any '' (concat (map (\<lambda>w. '' '' @ w) L))"
proof (rule clear_of_concat)
  show "\<forall>b\<in>set (map (\<lambda>w. '' '' @ w) L). clear_of ''Any '' b"
  proof
    fix b assume "b \<in> set (map (\<lambda>w. '' '' @ w) L)"
    then obtain w where "w \<in> set L" "b = '' '' @ w" by auto
    with assms clear_Any(1,2) show "clear_of ''Any '' b"
      by (auto intro!: clear_of_append)
  qed
qed

lemma clear_str_join:
  assumes "set L \<subseteq> set activity_types"
  shows "clear_of '' to '' (str_join '' '' L)" and "clear_of ''Any '' (str_join '' '' L)"
proof -
  have "clear_of '' to '' (str_join '' '' L) \<and> clear_of ''Any '' (str_join '' '' L)"
  proof (cases L)
    case Nil
    then show ?thesis by simp
  next
    case (Cons x ws)
    with assms have x: "x \<in> set activity_types" and ws: "set ws \<subseteq> set activity_types" by auto
    from x clear_to clear_Any(1) have cx: "clear_of '' to '' x" "clear_of ''Any '' x" by auto
    from cx(1) clear_to_join [OF ws]
    have a: "clear_of '' to '' (x @ concat (map (\<lambda>w. '' '' @ w) ws))"
      by (rule clear_of_append)
    from cx(2) clear_Any_join [OF ws]
    have b: "clear_of ''Any '' (x @ concat (map (\<lambda>w. '' '' @ w) ws))"
      by (rule clear_of_append)
    from a b show ?thesis unfolding Cons str_join_blocks by (rule conjI)
  qed
  then show "clear_of '' to '' (str_join '' '' L)" and "clear_of ''Any '' (str_join '' '' L)"
    by simp_all
qed

text \<open>
  The explicit branch, once the description is known to be \<open>"Any "\<close>, a body, the first
  \<open>" to "\<close> and the rest.
\<close>

lemma explicit_branch:
  assumes d: "d = ''Any '' @ body @ '' to '' @ ch"
    and cA: "clear_of ''Any '' body"
    and ct: "str_partition '' to '' (body @ '' to '' @ hd (str_split ''Any '' ch))
             = Some (body, hd (str_split ''Any '' ch))"
    and np: "\<not> str_in ''posts to'' d"
    and scan: "scan_activities activity_types ([], body) = (acts, T)"
  shows "\<exists>c. parse_description d
              = Inr \<lparr>channel = c, tags = (if T \<noteq> [] then str_split '' '' T else [''all'']),
                     activities = acts\<rparr>"
proof -
  let ?ch = "hd (str_split ''Any '' ch)"
  let ?rest = "body @ '' to '' @ ?ch"
  have not_all: "\<not> str_startswith d ''All post activity to''"
    by (simp add: d str_startswith_def)
  have "str_partition ''Any '' (''Any '' @ body @ '' to '' @ ch) = Some ([], body @ '' to '' @ ch)"
    by (rule str_partition_self) simp
  then have "str_split ''Any '' d = [] # str_split ''Any '' (body @ '' to '' @ ch)"
    unfolding d by (intro str_split_found) simp_all
  moreover have "hd (str_split ''Any '' (body @ '' to '' @ ch)) = ?rest"
  proof -
    have "clear_of ''Any '' (body @ '' to '')"
      using cA by (rule clear_of_append) simp
    then have "hd (str_split ''Any '' ((body @ '' to '') @ ch)) = (body @ '' to '') @ ?ch"
      by (intro hd_str_split_clear) simp_all
    then show ?thesis by simp
  qed
  ultimately have rest: "index (str_split ''Any '' d) 1 = Inr ?rest"
    using str_split_nonempty [of "''Any ''" "body @ '' to '' @ ch"]
    by (cases "str_split ''Any '' (body @ '' to '' @ ch)") (simp_all add: index_def)
  from ct have sp: "str_split '' to '' ?rest = body # str_split '' to '' ?ch"
    by (intro str_split_found) simp_all
  then have body: "index (str_split '' to '' ?rest) 0 = Inr body"
    by (simp add: index_def)
  obtain c cs where "str_split '' to '' ?ch = c # cs"
    using str_split_nonempty [of "'' to ''" ?ch] by (cases "str_split '' to '' ?ch") auto
  with sp have chan: "index (str_split '' to '' ?rest) 1 = Inr c"
    by (simp add: index_def)
  have branch: "\<not> str_in ''posts to'' ?rest"
  proof
    assume a: "str_in ''posts to'' ?rest"
    obtain r where "ch = ?ch @ r"
      using hd_str_split_prefix [of "''Any ''" ch] by (auto simp: prefix_def)
    then have "d = ''Any '' @ (?rest @ r)" using d by simp
    moreover from a have "str_in ''posts to'' (?rest @ r)" by (rule str_in_append_left)
    then have "str_in ''posts to'' (''Any '' @ (?rest @ r))" by (rule str_in_append_right)
    ultimately show False using np by simp
  qed
  show ?thesis
    unfolding parse_description_def
    by (simp only: not_all rest chan branch body scan if_True if_False sum.case prod.case) blast
qed

lemma tag_clear:
  assumes no: "\<forall>v\<in>set activity_types. \<not> str_in v T"
    and e: "\<not> suffix ''edited'' T" and u: "\<not> suffix ''updated'' T"
    and a: "\<not> suffix ''accepted'' T"
  shows "\<forall>v\<in>set activity_types. clear_of v (T @ '' '')"
proof -
  have n: "\<not> str_in v (T @ '' '')" if "v \<in> set activity_types" for v
  proof (rule str_in_snoc_other)
    from that no show "\<not> str_in v T" by blast
    from that show "v \<noteq> []" "last v \<noteq> CHR '' ''" by (auto simp: activity_types_def)
  qed
  have 1: "clear_of ''edited questions'' (T @ '' '')"
  proof (rule clear_snocI)
    show "\<not> str_in ''edited questions'' (T @ '' '')" by (rule n) (simp add: activity_types_def)
    fix t assume "suffix t T" "prefix (t @ '' '') ''edited questions''"
    with e show False by (auto simp: prefix_Cons append_eq_Cons_conv)
  qed
  have 2: "clear_of ''updated answers'' (T @ '' '')"
  proof (rule clear_snocI)
    show "\<not> str_in ''updated answers'' (T @ '' '')" by (rule n) (simp add: activity_types_def)
    fix t assume "suffix t T" "prefix (t @ '' '') ''updated answers''"
    with u show False by (auto simp: prefix_Cons append_eq_Cons_conv)
  qed
  have 3: "clear_of ''accepted answers'' (T @ '' '')"
  proof (rule clear_snocI)
    show "\<not> str_in ''accepted answers'' (T @ '' '')" by (rule n) (simp add: activity_types_def)
    fix t assume "suffix t T" "prefix (t @ '' '') ''accepted answers''"
    with a show False by (auto simp: prefix_Cons append_eq_Cons_conv)
  qed
  have 4: "clear_of ''questions'' (T @ '' '')"
  proof (rule clear_snocI)
    show "\<not> str_in ''questions'' (T @ '' '')" by (rule n) (simp add: activity_types_def)
    fix t assume "suffix t T" "prefix (t @ '' '') ''questions''"
    then show False by (auto simp: prefix_Cons append_eq_Cons_conv)
  qed
  have 5: "clear_of ''answers'' (T @ '' '')"
  proof (rule clear_snocI)
    show "\<not> str_in ''answers'' (T @ '' '')" by (rule n) (simp add: activity_types_def)
    fix t assume "suffix t T" "prefix (t @ '' '') ''answers''"
    then show False by (auto simp: prefix_Cons append_eq_Cons_conv)
  qed
  have 6: "clear_of ''comments'' (T @ '' '')"
  proof (rule clear_snocI)
    show "\<not> str_in ''comments'' (T @ '' '')" by (rule n) (simp add: activity_types_def)
    fix t assume "suffix t T" "prefix (t @ '' '') ''comments''"
    then show False by (auto simp: prefix_Cons append_eq_Cons_conv)
  qed
  from 1 2 3 4 5 6 show ?thesis by (simp add: activity_types_def)
qed

lemma Any_clear_tag:
  assumes "\<not> str_in ''Any '' (T @ '' '')"
  shows "clear_of ''Any '' (T @ '' '')"
proof (rule clear_snocI)
  show "\<not> str_in ''Any '' (T @ '' '')" by (rule assms)
  fix t assume s: "suffix t T" and "prefix (t @ '' '') ''Any ''"
  then have "t = ''Any''" by (auto simp: prefix_Cons append_eq_Cons_conv)
  with s have "suffix ''Any '' (T @ '' '')" by simp
  then have "sublist ''Any '' (T @ '' '')" by (rule suffix_imp_sublist)
  with assms show False by (simp add: str_in_sublist)
qed

lemma to_not_across:
  assumes "\<not> str_in '' to '' (T @ '' '')"
  shows "\<not> str_in '' to '' (T @ CHR '' '' # take 2 W)"
proof -
  have r: "str_in '' to '' (T @ CHR '' '' # X) \<longleftrightarrow> str_in (rev '' to '') (rev X @ CHR '' '' # rev T)"
    for X using str_in_rev [of "'' to ''" "T @ CHR '' '' # X"] by simp
  from assms have b: "\<not> str_in (rev '' to '') (CHR '' '' # rev T)"
    using r [of "[]"] by simp
  consider "take 2 W = []" | x where "take 2 W = [x]" | x y where "take 2 W = [x, y]"
    by (cases W rule: list.exhaust; cases "tl W") auto
  then show ?thesis
  proof cases
    case 1
    with assms show ?thesis by simp
  next
    case 2
    show ?thesis unfolding 2 r using b by simp
  next
    case 3
    show ?thesis unfolding 3 r using b by simp
  qed
qed

section \<open>Explicit activity lists\<close>

text \<open>
  Claim C9, as stated: every description \<open>"Any " + phrase list + " to " + channel\<close> with
  nothing left of the body gives \<open>tags = ["all"]\<close>. The test for \<open>"posts to"\<close> looks at
  the whole text after \<open>"Any "\<close>, the channel included, so a channel that contains
  \<open>"posts to"\<close> sends the description to the all-activity branch, where the tags are
  the words before \<open>" posts to "\<close>.
\<close>

theorem C9_counterexample:
  "''Any questions to posts to x'' = ''Any '' @ str_join '' '' [''questions''] @ '' to '' @ ''posts to x''
   \<and> parse_description ''Any questions to posts to x''
       = Inr \<lparr>channel = ''posts'', tags = [''questions'', ''to''], activities = activity_types\<rparr>"
  by code_simp

text \<open>
  Claim C9, amended: for every description \<open>"Any " + p1 + " " + ... + " " + pn + " to " +
  channel\<close>, the \<open>p\<close> being phrases of the table, that does not contain \<open>"posts to"\<close>,
  the parser returns \<open>tags = ["all"]\<close>; its activities are the phrases of the table that
  are among the \<open>p\<close>, in the order of the table.
\<close>

theorem C9_no_tags:
  assumes d: "d = ''Any '' @ str_join '' '' L @ '' to '' @ ch"
    and L: "set L \<subseteq> set activity_types"
    and np: "\<not> str_in ''posts to'' d"
  shows "\<exists>c. parse_description d
              = Inr \<lparr>channel = c, tags = [''all''],
                     activities = filter (\<lambda>v. v \<in> set L) activity_types\<rparr>"
proof -
  let ?J = "str_join '' '' L"
  let ?ch = "hd (str_split ''Any '' ch)"
  have "str_partition '' to '' (?J @ '' to '' @ ?ch)
        = map_option (\<lambda>(b, a). (?J @ b, a)) (str_partition '' to '' ('' to '' @ ?ch))"
    using clear_str_join(1) [OF L] by (rule clear_partition)
  also have "str_partition '' to '' ('' to '' @ ?ch) = Some ([], ?ch)"
    by (rule str_partition_self) simp
  finally have ct: "str_partition '' to '' (?J @ '' to '' @ ?ch) = Some (?J, ?ch)" by simp
  have nsp: "'' '' \<notin> set L" using L activity_types_blocks(2) by blast
  have "scan_activities activity_types ([], [] @ concat (tl (spaced L)))
        = (filter (\<lambda>v. v \<in> set (tl (spaced L))) activity_types, [])"
  proof (rule scan_activity_types)
    show "set (tl (spaced L)) \<subseteq> insert '' '' (set activity_types)"
      using set_tl_spaced [of L] L by auto
    show "trimmed [] (tl (spaced L))" using trimmed_spaced [OF nsp, of "[]"] by simp
  qed simp_all
  moreover have "filter (\<lambda>v. v \<in> set (tl (spaced L))) activity_types
                 = filter (\<lambda>v. v \<in> set L) activity_types"
  proof (rule filter_cong [OF refl])
    fix v assume "v \<in> set activity_types"
    with activity_types_blocks(2) have "v \<noteq> '' ''" by auto
    then show "v \<in> set (tl (spaced L)) \<longleftrightarrow> v \<in> set L" by (rule in_tl_spaced)
  qed
  ultimately have scan: "scan_activities activity_types ([], ?J)
        = (filter (\<lambda>v. v \<in> set L) activity_types, [])"
    by (simp add: str_join_spaced)
  from explicit_branch [OF d clear_str_join(2) [OF L] ct np scan] show ?thesis by simp
qed

theorem C9_no_tags_witness:
  "''Any questions answers to #help-desk''
     = ''Any '' @ str_join '' '' [''questions'', ''answers''] @ '' to '' @ ''#help-desk''
   \<and> set [''questions'', ''answers''] \<subseteq> set activity_types
   \<and> \<not> str_in ''posts to'' ''Any questions answers to #help-desk''
   \<and> (\<exists>c. parse_description ''Any questions answers to #help-desk''
          = Inr \<lparr>channel = c, tags = [''all''], activities = [''questions'', ''answers'']\<rparr>)"
proof -
  let ?d = "''Any questions answers to #help-desk''"
  let ?L = "[''questions'', ''answers'']"
  have d: "?d = ''Any '' @ str_join '' '' ?L @ '' to '' @ ''#help-desk''" by simp
  have L: "set ?L \<subseteq> set activity_types" by (simp add: activity_types_def)
  have np: "\<not> str_in ''posts to'' ?d" by code_simp
  have acts: "filter (\<lambda>v. v \<in> set ?L) activity_types = ?L" by code_simp
  from C9_no_tags [OF d L np]
  have "\<exists>c. parse_description ?d = Inr \<lparr>channel = c, tags = [''all''], activities = ?L\<rparr>"
    by (simp only: acts)
  with d L np show ?thesis by blast
qed

text \<open>
  Claim C1, as stated: \<open>activities\<close> holds exactly the phrases of the table that appear in
  the input, and what is left over becomes the tags. A phrase is looked for in what the
  earlier deletions have left, not in the input. With the tag \<open>unedited\<close> before the
  phrase \<open>questions\<close> the source finds \<open>"edited questions"\<close>, deletes it, and then no
  longer finds \<open>"questions"\<close>, which the input contains; the tag comes out as \<open>un\<close>.
  And deleting \<open>"questions"\<close> from \<open>"commquestionsents"\<close> leaves \<open>"comments"\<close>, which
  is reported although the input does not contain it.
\<close>

theorem C1_counterexample:
  "\<not> str_in ''posts to'' ''Any unedited questions to #c''
   \<and> str_in ''questions'' ''Any unedited questions to #c''
   \<and> parse_description ''Any unedited questions to #c''
       = Inr \<lparr>channel = ''#c'', tags = [''un''], activities = [''edited questions'']\<rparr>
   \<and> \<not> str_in ''posts to'' ''Any commquestionsents to #c''
   \<and> \<not> str_in ''comments'' ''Any commquestionsents to #c''
   \<and> parse_description ''Any commquestionsents to #c''
       = Inr \<lparr>channel = ''#c'', tags = [''all''], activities = [''questions'', ''comments'']\<rparr>"
  by code_simp

text \<open>
  Claim C1, amended: take a description \<open>"Any " + T + " " + p1 + " " + ... + " " + pn +
  " to " + channel\<close> with at least one \<open>p\<close>, every \<open>p\<close> a phrase of the table, that does
  not contain \<open>"posts to"\<close>. Let the tag text \<open>T\<close> be non-empty with no whitespace at its
  ends, let no phrase of the table begin inside it (it contains none, and does not end in
  \<open>edited\<close>, \<open>updated\<close> or \<open>accepted\<close>), and let neither \<open>"Any "\<close> nor \<open>" to "\<close> occur
  in \<open>T\<close> followed by a space. Then \<open>activities\<close> are the phrases of the table that are
  among the \<open>p\<close>, in the order of the table, and \<open>tags\<close> are \<open>T.split(' ')\<close>.
\<close>

theorem C1_explicit:
  assumes d: "d = ''Any '' @ T @ '' '' @ str_join '' '' L @ '' to '' @ ch"
    and L: "L \<noteq> []" "set L \<subseteq> set activity_types"
    and T: "T \<noteq> []" "str_strip T = T"
    and noT: "\<forall>v\<in>set activity_types. \<not> str_in v T"
    and ends: "\<not> suffix ''edited'' T" "\<not> suffix ''updated'' T" "\<not> suffix ''accepted'' T"
    and any: "\<not> str_in ''Any '' (T @ '' '')"
    and to: "\<not> str_in '' to '' (T @ '' '')"
    and np: "\<not> str_in ''posts to'' d"
  shows "\<exists>c. parse_description d
              = Inr \<lparr>channel = c, tags = str_split '' '' T,
                     activities = filter (\<lambda>v. v \<in> set L) activity_types\<rparr>"
proof -
  let ?J = "str_join '' '' L"
  let ?B = "concat (map (\<lambda>w. '' '' @ w) L)"
  let ?ch = "hd (str_split ''Any '' ch)"
  have sol: "solid T" using T by (rule solid_strip)
  have body: "T @ '' '' @ ?J = T @ ?B"
    using space_str_join [OF L(1)] by (simp only: concat_spaced)
  have d': "d = ''Any '' @ (T @ ?B) @ '' to '' @ ch"
    unfolding d using body by simp
  have cA: "clear_of ''Any '' (T @ ?B)"
  proof -
    have "clear_of ''Any '' ((T @ '' '') @ ?J)"
      using Any_clear_tag [OF any] clear_str_join(2) [OF L(2)] by (rule clear_of_append)
    with body show ?thesis by simp
  qed
  have ct: "str_partition '' to '' ((T @ ?B) @ '' to '' @ ?ch) = Some (T @ ?B, ?ch)"
  proof -
    let ?V = "?B @ '' to '' @ ?ch"
    obtain x ws where Lx: "L = x # ws" using L(1) by (cases L) auto
    then obtain W where V: "?V = CHR '' '' # W" by simp
    have tk: "take (length '' to '' - 1) ?V = CHR '' '' # take 2 W"
      unfolding V by (simp add: numeral_2_eq_2)
    have "\<not> str_in '' to '' (T @ take (length '' to '' - 1) ?V)"
      unfolding tk by (rule to_not_across [OF to])
    then have "str_partition '' to '' (T @ ?V)
               = map_option (\<lambda>(b, a). (T @ b, a)) (str_partition '' to '' ?V)"
      by (rule str_partition_append)
    also have "str_partition '' to '' ?V
               = map_option (\<lambda>(b, a). (?B @ b, a)) (str_partition '' to '' ('' to '' @ ?ch))"
      using clear_to_join [OF L(2)] by (rule clear_partition)
    also have "str_partition '' to '' ('' to '' @ ?ch) = Some ([], ?ch)"
      by (rule str_partition_self) simp
    finally show ?thesis by simp
  qed
  have "scan_activities activity_types ([], T @ concat (spaced L))
        = (filter (\<lambda>v. v \<in> set (spaced L)) activity_types, T)"
  proof (rule scan_activity_types)
    show "T = [] \<or> solid T" using sol ..
    show "T \<noteq> [] \<longrightarrow> (\<forall>v\<in>set activity_types. clear_of v (T @ '' ''))"
      using tag_clear [OF noT ends] by simp
    show "set (spaced L) \<subseteq> insert '' '' (set activity_types)"
      using L by (auto simp: set_spaced)
    have "'' '' \<notin> set L" using L(2) activity_types_blocks(2) by blast
    from trimmed_spaced [OF this, of T] T(1) show "trimmed T (spaced L)" by simp
    show "T \<noteq> [] \<longrightarrow> spaced L = [] \<or> hd (spaced L) = '' ''"
      using L(1) by (cases L) simp_all
  qed
  moreover have "filter (\<lambda>v. v \<in> set (spaced L)) activity_types
                 = filter (\<lambda>v. v \<in> set L) activity_types"
  proof (rule filter_cong [OF refl])
    fix v assume "v \<in> set activity_types"
    with activity_types_blocks(2) have "v \<noteq> '' ''" by auto
    then show "v \<in> set (spaced L) \<longleftrightarrow> v \<in> set L" by (rule in_spaced)
  qed
  ultimately have scan: "scan_activities activity_types ([], T @ ?B)
        = (filter (\<lambda>v. v \<in> set L) activity_types, T)"
    by (simp only: concat_spaced)
  from explicit_branch [OF d' cA ct np scan] T(1) show ?thesis by simp
qed

theorem C1_explicit_witness:
  "''Any admiral python aws questions answers to #admiral''
     = ''Any '' @ ''admiral python aws'' @ '' '' @ str_join '' '' [''questions'', ''answers'']
       @ '' to '' @ ''#admiral''
   \<and> set [''questions'', ''answers''] \<subseteq> set activity_types
   \<and> str_strip ''admiral python aws'' = ''admiral python aws''
   \<and> list_all (\<lambda>v. \<not> str_in v ''admiral python aws'') activity_types
   \<and> \<not> suffix ''edited'' ''admiral python aws''
   \<and> \<not> suffix ''updated'' ''admiral python aws''
   \<and> \<not> suffix ''accepted'' ''admiral python aws''
   \<and> \<not> str_in ''Any '' (''admiral python aws'' @ '' '')
   \<and> \<not> str_in '' to '' (''admiral python aws'' @ '' '')
   \<and> \<not> str_in ''posts to'' ''Any admiral python aws questions answers to #admiral''
   \<and> (\<exists>c. parse_description ''Any admiral python aws questions answers to #admiral''
          = Inr \<lparr>channel = c, tags = [''admiral'', ''python'', ''aws''],
                 activities = [''questions'', ''answers'']\<rparr>)"
proof -
  let ?d = "''Any admiral python aws questions answers to #admiral''"
  let ?T = "''admiral python aws''"
  let ?L = "[''questions'', ''answers'']"
  have d: "?d = ''Any '' @ ?T @ '' '' @ str_join '' '' ?L @ '' to '' @ ''#admiral''" by simp
  have L: "?L \<noteq> []" "set ?L \<subseteq> set activity_types" by (simp_all add: activity_types_def)
  have T: "?T \<noteq> []" "str_strip ?T = ?T" by simp code_simp
  have noT: "\<forall>v\<in>set activity_types. \<not> str_in v ?T" by code_simp
  have ends: "\<not> suffix ''edited'' ?T" "\<not> suffix ''updated'' ?T" "\<not> suffix ''accepted'' ?T"
    by (simp_all add: suffix_to_prefix)
  have any: "\<not> str_in ''Any '' (?T @ '' '')" by code_simp
  have to: "\<not> str_in '' to '' (?T @ '' '')" by code_simp
  have np: "\<not> str_in ''posts to'' ?d" by code_simp
  have tags: "str_split '' '' ?T = [''admiral'', ''python'', ''aws'']" by code_simp
  have acts: "filter (\<lambda>v. v \<in> set ?L) activity_types = ?L" by code_simp
  from C1_explicit [OF d L T noT ends any to np]
  have "\<exists>c. parse_description ?d
          = Inr \<lparr>channel = c, tags = [''admiral'', ''python'', ''aws''], activities = ?L\<rparr>"
    by (simp only: tags acts)
  moreover from noT have "list_all (\<lambda>v. \<not> str_in v ?T) activity_types"
    by (simp only: list_all_iff)
  ultimately show ?thesis using d L(2) T(2) ends any to np by blast
qed

section \<open>The normalizer is not idempotent\<close>







end
